theory Spec2Isabelle
  imports Complex_Main "HOL-Library.Log_Nat" "HOL-Library.Word" "HOL-Library.Monad_Syntax"
begin

section \<open>Single-precision arithmetic\<close>

text \<open>
  The header \<^verbatim>\<open>firmware/mq7_module.h\<close> computes in the C type \<^verbatim>\<open>float\<close>. The model
  takes \<^verbatim>\<open>float\<close> to be IEEE 754 binary32 (24 significant bits, exponents from -126 to
  127, subnormal numbers), every operation rounded once to the nearest value, ties to the
  even significand, and evaluated in that format (no wider intermediate, no fused
  multiply-add). A finite \<^verbatim>\<open>float\<close> is modelled by the rational number it denotes; an
  operation whose result is not a finite number (overflow, division by zero) yields
  \<open>None\<close>.
\<close>

type_synonym f32 = rat

definition round_half_even :: "rat \<Rightarrow> int" where
  "round_half_even z =
     (let f = \<lfloor>z\<rfloor>; r = z - of_int f
      in if r < 1 / 2 then f
         else if 1 / 2 < r then f + 1
         else if even f then f else f + 1)"

text \<open>The binary exponent of a positive rational \<open>x\<close>, the \<open>e\<close> with
  \<open>2 powi e \<le> x < 2 powi (e + 1)\<close>, from the bit lengths of its numerator and
  denominator.\<close>

definition rat_ilog2 :: "rat \<Rightarrow> int" where
  "rat_ilog2 x =
     (case quotient_of x of (p, q) \<Rightarrow>
        let d = bitlen p - bitlen q
        in if 2 powi d \<le> x then d else d - 1)"

text \<open>The spacing of binary32 numbers around \<open>x\<close>: \<open>2 powi (e - 23)\<close> in the binade of
  exponent \<open>e\<close>, and \<open>2 powi (- 149)\<close> below the smallest normal number \<open>2 powi (- 126)\<close>.\<close>

definition f32_ulp :: "rat \<Rightarrow> rat" where
  "f32_ulp x = 2 powi (max (rat_ilog2 \<bar>x\<bar>) (- 126) - 23)"

definition f32_round :: "rat \<Rightarrow> rat" where
  "f32_round x =
     (if x = 0 then 0
      else of_int (round_half_even (x / f32_ulp x)) * f32_ulp x)"

text \<open>Rounding to nearest, ties to even, with the exponent unbounded above; the
  largest finite binary32 number; and the result of an operation whose exact value is
  \<open>x\<close>: the rounded value, or \<open>None\<close> where IEEE 754 gives an infinity.\<close>

definition FLT_MAX :: f32 where
  "FLT_MAX = (2 ^ 24 - 1) * 2 ^ 104"

definition f32_fin :: "rat \<Rightarrow> f32 option" where
  "f32_fin x = (let y = f32_round x in if \<bar>y\<bar> \<le> FLT_MAX then Some y else None)"

text \<open>The conversion \<^verbatim>\<open>(float)adc\<close> and the four arithmetic operations. Division by
  zero gives an infinity or a NaN in IEEE 754, here \<open>None\<close>.\<close>

definition f32_of_int :: "int \<Rightarrow> f32 option" where
  "f32_of_int n = f32_fin (of_int n)"

definition f32_add :: "f32 \<Rightarrow> f32 \<Rightarrow> f32 option" where
  "f32_add a b = f32_fin (a + b)"

definition f32_sub :: "f32 \<Rightarrow> f32 \<Rightarrow> f32 option" where
  "f32_sub a b = f32_fin (a - b)"

definition f32_mul :: "f32 \<Rightarrow> f32 \<Rightarrow> f32 option" where
  "f32_mul a b = f32_fin (a * b)"

definition f32_div :: "f32 \<Rightarrow> f32 \<Rightarrow> f32 option" where
  "f32_div a b = (if b = 0 then None else f32_fin (a / b))"

section \<open>The header \<^verbatim>\<open>mq7_module.h\<close>\<close>

definition MQ7_ADC_MIN_F :: f32 where "MQ7_ADC_MIN_F = 0"
definition MQ7_ADC_MAX_F :: f32 where "MQ7_ADC_MAX_F = 4095"
definition GAS_UNIT_MIN :: f32 where "GAS_UNIT_MIN = 150"
definition GAS_UNIT_MAX :: f32 where "GAS_UNIT_MAX = 700"

text \<open>The argument is a C \<^verbatim>\<open>int\<close>, a 32-bit two's complement value read by \<open>sint\<close>
  (the values of a 16-bit \<^verbatim>\<open>int\<close> are among them). The two \<^verbatim>\<open>if\<close> statements assign to
  \<^verbatim>\<open>t\<close> in sequence, the second testing the value the first has left.\<close>

definition mq7_map_adc_to_gas :: "32 word \<Rightarrow> f32 option" where
  "mq7_map_adc_to_gas adc = do {
     v \<leftarrow> f32_of_int (sint adc);
     n \<leftarrow> f32_sub v MQ7_ADC_MIN_F;
     d \<leftarrow> f32_sub MQ7_ADC_MAX_F MQ7_ADC_MIN_F;
     t \<leftarrow> f32_div n d;
     let t = (if t < 0 then 0 else t);
     let t = (if 1 < t then 1 else t);
     w \<leftarrow> f32_sub GAS_UNIT_MAX GAS_UNIT_MIN;
     p \<leftarrow> f32_mul t w;
     gas_val \<leftarrow> f32_add GAS_UNIT_MIN p;
     Some gas_val
   }"

text \<open>The local variable \<^verbatim>\<open>t\<close> of \<^verbatim>\<open>mq7_map_adc_to_gas\<close> after both clamps, for an
  argument of value \<open>a\<close>, written without the overflow checks (none of them fires, see
  \<open>mq7_unfold\<close> below).\<close>

definition mq7_t :: "int \<Rightarrow> f32" where
  "mq7_t a =
     (let t = f32_round (f32_round (f32_round (of_int a) - 0) / 4095);
          t = (if t < 0 then 0 else t)
      in if 1 < t then 1 else t)"

section \<open>The call in program memory\<close>

text \<open>
  The function above is the value the call computes. To say what the call reads and
  writes, the same statements are also run on the memory of the program: the four
  \<^verbatim>\<open>static const float\<close> objects of the header, every other object the program keeps,
  and the locals \<^verbatim>\<open>v\<close>, \<^verbatim>\<open>t\<close> and \<^verbatim>\<open>gas_val\<close> of the activation, which hold arbitrary
  values before their declarations are executed.
\<close>

record 'h mq7_memory =
  obj_MQ7_ADC_MIN_F :: f32
  obj_MQ7_ADC_MAX_F :: f32
  obj_GAS_UNIT_MIN :: f32
  obj_GAS_UNIT_MAX :: f32
  other_objects :: 'h

record mq7_locals =
  loc_v :: f32
  loc_t :: f32
  loc_gas_val :: f32

text \<open>The const objects hold their initialisers.\<close>

definition mq7_initialised :: "'h mq7_memory \<Rightarrow> bool" where
  "mq7_initialised m \<longleftrightarrow>
     obj_MQ7_ADC_MIN_F m = MQ7_ADC_MIN_F \<and> obj_MQ7_ADC_MAX_F m = MQ7_ADC_MAX_F \<and>
     obj_GAS_UNIT_MIN m = GAS_UNIT_MIN \<and> obj_GAS_UNIT_MAX m = GAS_UNIT_MAX"

text \<open>The body, statement by statement: each declaration and assignment updates a local,
  each operand is read from the locals or from the const objects.\<close>

definition mq7_body ::
  "32 word \<Rightarrow> mq7_locals \<times> 'h mq7_memory \<Rightarrow> (mq7_locals \<times> 'h mq7_memory) option" where
  "mq7_body adc = (\<lambda>(l, m). do {
     v \<leftarrow> f32_of_int (sint adc);
     let l = l\<lparr>loc_v := v\<rparr>;
     n \<leftarrow> f32_sub (loc_v l) (obj_MQ7_ADC_MIN_F m);
     d \<leftarrow> f32_sub (obj_MQ7_ADC_MAX_F m) (obj_MQ7_ADC_MIN_F m);
     t \<leftarrow> f32_div n d;
     let l = l\<lparr>loc_t := t\<rparr>;
     let l = (if loc_t l < 0 then l\<lparr>loc_t := 0\<rparr> else l);
     let l = (if 1 < loc_t l then l\<lparr>loc_t := 1\<rparr> else l);
     w \<leftarrow> f32_sub (obj_GAS_UNIT_MAX m) (obj_GAS_UNIT_MIN m);
     p \<leftarrow> f32_mul (loc_t l) w;
     g \<leftarrow> f32_add (obj_GAS_UNIT_MIN m) p;
     let l = l\<lparr>loc_gas_val := g\<rparr>;
     Some (l, m)
   })"

text \<open>A call from memory \<open>m\<close> with the locals in state \<open>l\<close>: the value of
  \<^verbatim>\<open>gas_val\<close> at the \<^verbatim>\<open>return\<close>, and the memory the call leaves.\<close>

definition mq7_call ::
  "'h mq7_memory \<Rightarrow> mq7_locals \<Rightarrow> 32 word \<Rightarrow> (f32 \<times> 'h mq7_memory) option" where
  "mq7_call m l adc = map_option (\<lambda>(l', m'). (loc_gas_val l', m')) (mq7_body adc (l, m))"

section \<open>The contract of the specification\<close>

text \<open>The specification names the constants \<open>ADC_MIN\<close>, \<open>ADC_MAX\<close>, \<open>UNIT_MIN\<close>,
  \<open>UNIT_MAX\<close> and gives the mapping as three assignments using \<open>clamp\<close>. Its result is
  a floating-point value: the three assignments are read in the arithmetic of the code.\<close>

definition ADC_MIN :: f32 where "ADC_MIN = 0"
definition ADC_MAX :: f32 where "ADC_MAX = 4095"
definition UNIT_MIN :: f32 where "UNIT_MIN = 150"
definition UNIT_MAX :: f32 where "UNIT_MAX = 700"

definition clamp :: "f32 \<Rightarrow> f32 \<Rightarrow> f32 \<Rightarrow> f32" where
  "clamp t lo hi = min (max t lo) hi"

definition spec_map_adc_to_gas :: "int \<Rightarrow> f32 option" where
  "spec_map_adc_to_gas adc = do {
     a \<leftarrow> f32_of_int adc;
     n \<leftarrow> f32_sub a ADC_MIN;
     d \<leftarrow> f32_sub ADC_MAX ADC_MIN;
     t \<leftarrow> f32_div n d;
     let t = clamp t 0 1;
     w \<leftarrow> f32_sub UNIT_MAX UNIT_MIN;
     p \<leftarrow> f32_mul t w;
     f32_add UNIT_MIN p
   }"

text \<open>The same contract in exact rational arithmetic, to measure the rounding error of
  the code against.\<close>

definition exact_map_adc_to_gas :: "int \<Rightarrow> rat" where
  "exact_map_adc_to_gas adc =
     UNIT_MIN + clamp ((of_int adc - ADC_MIN) / (ADC_MAX - ADC_MIN)) 0 1 * (UNIT_MAX - UNIT_MIN)"

text \<open>The affine formula without the clamp,
  \<open>GAS_UNIT_MIN + (adc / 4095) * (GAS_UNIT_MAX - GAS_UNIT_MIN)\<close>, in the arithmetic of the
  code.\<close>

definition unclamped_map_adc_to_gas :: "int \<Rightarrow> f32 option" where
  "unclamped_map_adc_to_gas adc = do {
     v \<leftarrow> f32_of_int adc;
     t \<leftarrow> f32_div v 4095;
     w \<leftarrow> f32_sub GAS_UNIT_MAX GAS_UNIT_MIN;
     p \<leftarrow> f32_mul t w;
     f32_add GAS_UNIT_MIN p
   }"

section \<open>Rounding to the nearest integer, ties to even\<close>

lemma rhe_err: "\<bar>of_int (round_half_even z) - z\<bar> \<le> 1 / 2"
proof -
  have "of_int \<lfloor>z\<rfloor> \<le> z" "z < of_int \<lfloor>z\<rfloor> + 1" by linarith+
  then show ?thesis unfolding round_half_even_def Let_def by (auto simp: abs_le_iff)
qed

lemma rhe_of_int: "round_half_even (of_int n) = n"
  unfolding round_half_even_def Let_def by simp

lemma rhe_mono: assumes "z \<le> w" shows "round_half_even z \<le> round_half_even w"
proof -
  have fl: "\<lfloor>z\<rfloor> \<le> \<lfloor>w\<rfloor>" using assms by (rule floor_mono)
  have lo: "\<lfloor>w\<rfloor> \<le> round_half_even w" unfolding round_half_even_def Let_def by auto
  have hi: "round_half_even z \<le> \<lfloor>z\<rfloor> + 1" unfolding round_half_even_def Let_def by auto
  show ?thesis
  proof (cases "\<lfloor>z\<rfloor> = \<lfloor>w\<rfloor>")
    case True
    then show ?thesis using assms unfolding round_half_even_def Let_def by auto
  next
    case False
    then have "\<lfloor>z\<rfloor> + 1 \<le> \<lfloor>w\<rfloor>" using fl by linarith
    then show ?thesis using lo hi by linarith
  qed
qed

lemma rhe_neg: "round_half_even (- z) = - round_half_even z"
proof (cases "z = of_int \<lfloor>z\<rfloor>")
  case True
  then obtain n where "z = of_int n" ..
  then have "- z = of_int (- n)" by simp
  then show ?thesis using rhe_of_int \<open>z = of_int n\<close> by metis
next
  case False
  have b: "of_int \<lfloor>z\<rfloor> < z" "z < of_int \<lfloor>z\<rfloor> + 1" using False by linarith+
  have "\<lfloor>- z\<rfloor> = - \<lfloor>z\<rfloor> - 1" using b by (intro floor_unique) auto
  then show ?thesis unfolding round_half_even_def Let_def using b by auto
qed

lemma rhe_nonneg: "0 \<le> z \<Longrightarrow> 0 \<le> round_half_even z"
  using rhe_mono [of 0 z] rhe_of_int [of 0] by simp

section \<open>The binary exponent\<close>

lemma rat_ilog2_bounds:
  assumes "0 < x"
  shows "2 powi (rat_ilog2 x) \<le> x" and "x < 2 powi (rat_ilog2 x + 1)"
proof -
  obtain p q where pq: "quotient_of x = (p, q)" by (cases "quotient_of x")
  have q: "0 < q" using pq quotient_of_denom_pos by blast
  have x: "x = of_int p / of_int q" using pq by (rule quotient_of_div)
  have p: "0 < p" using assms q x by (simp add: zero_less_divide_iff)
  define bp where "bp = bitlen p"
  define bq where "bq = bitlen q"
  have bp1: "1 \<le> bp" using p bitlen_eq_zero_iff[of p] bitlen_nonneg[of p] unfolding bp_def by linarith
  have bq1: "1 \<le> bq" using q bitlen_eq_zero_iff[of q] bitlen_nonneg[of q] unfolding bq_def by linarith
  have pb: "(2::int) ^ nat (bp - 1) \<le> p" "p < 2 ^ nat bp" using bitlen_bounds[OF p] unfolding bp_def by auto
  have qb: "(2::int) ^ nat (bq - 1) \<le> q" "q < 2 ^ nat bq" using bitlen_bounds[OF q] unfolding bq_def by auto
  have pr: "(2::rat) powi (bp - 1) \<le> of_int p" "(of_int p :: rat) < 2 powi bp"
  proof -
    have "(of_int ((2::int) ^ nat (bp - 1)) :: rat) \<le> of_int p" using pb(1) by (simp only: of_int_le_iff)
    then show "(2::rat) powi (bp - 1) \<le> of_int p" using bp1 by (simp add: power_int_def)
    have "(of_int p :: rat) < of_int ((2::int) ^ nat bp)" using pb(2) by (simp only: of_int_less_iff)
    then show "(of_int p :: rat) < 2 powi bp" using bp1 by (simp add: power_int_def)
  qed
  have qr: "(2::rat) powi (bq - 1) \<le> of_int q" "(of_int q :: rat) < 2 powi bq"
  proof -
    have "(of_int ((2::int) ^ nat (bq - 1)) :: rat) \<le> of_int q" using qb(1) by (simp only: of_int_le_iff)
    then show "(2::rat) powi (bq - 1) \<le> of_int q" using bq1 by (simp add: power_int_def)
    have "(of_int q :: rat) < of_int ((2::int) ^ nat bq)" using qb(2) by (simp only: of_int_less_iff)
    then show "(of_int q :: rat) < 2 powi bq" using bq1 by (simp add: power_int_def)
  qed
  have qpos: "(0::rat) < of_int q" using q by simp
  have lo: "2 powi (bp - bq - 1) \<le> x"
  proof -
    have "(2::rat) powi (bp - bq - 1) = 2 powi (bp - 1) / 2 powi bq"
      by (simp add: power_int_diff)
    also have "\<dots> \<le> of_int p / of_int q"
      using pr(1) qr(2) qpos p by (intro frac_le) auto
    finally show ?thesis using x by simp
  qed
  have hi: "x < 2 powi (bp - bq + 1)"
  proof -
    have "of_int p / of_int q < (2::rat) powi bp / 2 powi (bq - 1)"
      using pr(2) qr(1) qpos p by (intro frac_less) auto
    also have "\<dots> = 2 powi (bp - (bq - 1))"
      by (rule power_int_diff [symmetric]) simp
    also have "bp - (bq - 1) = bp - bq + 1" by simp
    finally show ?thesis using x by simp
  qed
  have e: "rat_ilog2 x = (if 2 powi (bp - bq) \<le> x then bp - bq else bp - bq - 1)"
    unfolding rat_ilog2_def pq bp_def bq_def by (simp add: Let_def)
  show "2 powi (rat_ilog2 x) \<le> x" using lo unfolding e by simp
  show "x < 2 powi (rat_ilog2 x + 1)" using hi unfolding e by (simp add: not_le)
qed

lemma rat_ilog2_mono:
  assumes "0 < x" "x \<le> y"
  shows "rat_ilog2 x \<le> rat_ilog2 y"
proof (rule ccontr)
  assume "\<not> rat_ilog2 x \<le> rat_ilog2 y"
  then have "rat_ilog2 y + 1 \<le> rat_ilog2 x" by simp
  then have "(2::rat) powi (rat_ilog2 y + 1) \<le> 2 powi (rat_ilog2 x)"
    by (intro power_int_increasing) auto
  moreover have "y < 2 powi (rat_ilog2 y + 1)" using assms by (intro rat_ilog2_bounds) auto
  moreover have "2 powi (rat_ilog2 x) \<le> x" using assms by (intro rat_ilog2_bounds)
  ultimately show False using assms by linarith
qed

lemma rat_ilog2_less:
  assumes "0 < x" "x < 2 powi k"
  shows "rat_ilog2 x < k"
proof (rule ccontr)
  assume "\<not> rat_ilog2 x < k"
  then have "(2::rat) powi k \<le> 2 powi (rat_ilog2 x)"
    by (intro power_int_increasing) auto
  moreover have "2 powi (rat_ilog2 x) \<le> x" using assms by (intro rat_ilog2_bounds)
  ultimately show False using assms by linarith
qed


section \<open>Rounding to binary32\<close>

lemma f32_ulp_pos: "0 < f32_ulp x"
  unfolding f32_ulp_def by simp

lemma f32_ulp_neg: "f32_ulp (- x) = f32_ulp x"
  unfolding f32_ulp_def by simp

lemma f32_round_neg: "f32_round (- x) = - f32_round x"
  unfolding f32_round_def by (simp add: f32_ulp_neg rhe_neg)

lemma f32_round_nonneg: "0 \<le> x \<Longrightarrow> 0 \<le> f32_round x"
  unfolding f32_round_def using f32_ulp_pos [of x] by (simp add: rhe_nonneg)

lemma f32_round_zero: "f32_round 0 = 0"
  unfolding f32_round_def by simp


lemma f32_round_pos_eq:
  "0 < x \<Longrightarrow> f32_round x =
     of_int (round_half_even (x / 2 powi (max (rat_ilog2 x) (- 126) - 23))) * 2 powi (max (rat_ilog2 x) (- 126) - 23)"
  unfolding f32_round_def f32_ulp_def by simp

lemma pow2_split: "(2::rat) powi (e + 1) = 2 ^ 24 * 2 powi (e - 23)"
proof -
  have eq: "e + 1 = 24 + (e - 23)" by simp
  show ?thesis by (subst eq, subst power_int_add) simp_all
qed

lemma pow2_split': "(2::rat) powi e = 2 ^ 23 * 2 powi (e - 23)"
proof -
  have eq: "e = 23 + (e - 23)" by simp
  show ?thesis by (subst eq, subst power_int_add) simp_all
qed

lemma f32_round_upper:
  assumes "0 < x"
  shows "f32_round x \<le> 2 powi (max (rat_ilog2 x) (- 126) + 1)"
proof -
  define e where "e = max (rat_ilog2 x) (- 126)"
  define u where "u = (2::rat) powi (e - 23)"
  have u: "0 < u" unfolding u_def by simp
  have "x < 2 powi (rat_ilog2 x + 1)" using assms by (rule rat_ilog2_bounds)
  also have "\<dots> \<le> 2 powi (e + 1)" unfolding e_def by (intro power_int_increasing) auto
  also have "\<dots> = 2 ^ 24 * u" unfolding u_def by (rule pow2_split)
  finally have "x / u \<le> of_int (2 ^ 24)" using u by (simp add: field_simps)
  then have "round_half_even (x / u) \<le> 2 ^ 24"
    using rhe_mono [of "x / u" "of_int (2 ^ 24)"] by (simp only: rhe_of_int)
  then have "(of_int (round_half_even (x / u)) :: rat) \<le> of_int (2 ^ 24)" by (simp only: of_int_le_iff)
  then have "of_int (round_half_even (x / u)) * u \<le> 2 ^ 24 * u" using u by simp
  moreover have "f32_round x = of_int (round_half_even (x / u)) * u"
    unfolding f32_round_pos_eq [OF assms] e_def [symmetric] u_def [symmetric] ..
  moreover have "2 powi (max (rat_ilog2 x) (- 126) + 1) = 2 ^ 24 * u"
    unfolding e_def [symmetric] u_def by (rule pow2_split)
  ultimately show ?thesis by (simp only:)
qed

lemma f32_round_lower:
  assumes "0 < x" "- 126 \<le> rat_ilog2 x"
  shows "2 powi (rat_ilog2 x) \<le> f32_round x"
proof -
  define e where "e = max (rat_ilog2 x) (- 126)"
  define u where "u = (2::rat) powi (e - 23)"
  have e: "e = rat_ilog2 x" unfolding e_def using assms(2) by simp
  have u: "0 < u" unfolding u_def by simp
  have "2 ^ 23 * u = 2 powi e" unfolding u_def by (rule pow2_split' [symmetric])
  also have "\<dots> \<le> x" unfolding e using assms(1) by (rule rat_ilog2_bounds)
  finally have "of_int (2 ^ 23) \<le> x / u" using u by (simp add: field_simps)
  then have "2 ^ 23 \<le> round_half_even (x / u)"
    using rhe_mono [of "of_int (2 ^ 23)" "x / u"] by (simp only: rhe_of_int)
  then have "(of_int (2 ^ 23) :: rat) \<le> of_int (round_half_even (x / u))" by (simp only: of_int_le_iff)
  then have "2 ^ 23 * u \<le> of_int (round_half_even (x / u)) * u" using u by simp
  moreover have "f32_round x = of_int (round_half_even (x / u)) * u"
    unfolding f32_round_pos_eq [OF assms(1)] e_def [symmetric] u_def [symmetric] ..
  moreover have "2 powi (rat_ilog2 x) = 2 ^ 23 * u"
    unfolding e [symmetric] u_def by (rule pow2_split')
  ultimately show ?thesis by (simp only:)
qed

lemma f32_round_mono_pos:
  assumes "0 < x" "x \<le> y"
  shows "f32_round x \<le> f32_round y"
proof -
  have y: "0 < y" using assms by simp
  define ex where "ex = max (rat_ilog2 x) (- 126)"
  define ey where "ey = max (rat_ilog2 y) (- 126)"
  have le: "ex \<le> ey" unfolding ex_def ey_def using rat_ilog2_mono [OF assms] by simp
  show ?thesis
  proof (cases "ex = ey")
    case True
    define u where "u = (2::rat) powi (ex - 23)"
    have u: "0 < u" unfolding u_def by simp
    have "x / u \<le> y / u" using assms(2) u by (simp add: divide_right_mono)
    then have "round_half_even (x / u) \<le> round_half_even (y / u)" by (rule rhe_mono)
    then have "(of_int (round_half_even (x / u)) :: rat) \<le> of_int (round_half_even (y / u))"
      by (simp only: of_int_le_iff)
    then have "of_int (round_half_even (x / u)) * u \<le> of_int (round_half_even (y / u)) * u"
      using u by simp
    then show ?thesis
      unfolding f32_round_pos_eq [OF assms(1)] f32_round_pos_eq [OF y]
        ex_def [symmetric] ey_def [symmetric] True [symmetric] u_def [symmetric] .
  next
    case False
    then have lt: "ex + 1 \<le> ey" using le by simp
    then have ey: "ey = rat_ilog2 y" "- 126 \<le> rat_ilog2 y" unfolding ex_def ey_def by auto
    have "f32_round x \<le> 2 powi (ex + 1)" unfolding ex_def using assms(1) by (rule f32_round_upper)
    also have "\<dots> \<le> 2 powi ey" using lt by (intro power_int_increasing) auto
    also have "\<dots> \<le> f32_round y" unfolding ey(1) using y ey(2) by (rule f32_round_lower)
    finally show ?thesis .
  qed
qed

lemma f32_round_mono:
  assumes "x \<le> y"
  shows "f32_round x \<le> f32_round y"
proof -
  consider "0 < x" | "x \<le> 0" "0 \<le> y" | "y < 0" by linarith
  then show ?thesis
  proof cases
    case 1
    then show ?thesis using assms by (rule f32_round_mono_pos)
  next
    case 2
    have "0 \<le> f32_round (- x)" using 2(1) by (intro f32_round_nonneg) simp
    then have "f32_round x \<le> 0" by (simp add: f32_round_neg)
    moreover have "0 \<le> f32_round y" using 2(2) by (rule f32_round_nonneg)
    ultimately show ?thesis by simp
  next
    case 3
    have "f32_round (- y) \<le> f32_round (- x)" using 3 assms by (intro f32_round_mono_pos) auto
    then show ?thesis by (simp add: f32_round_neg)
  qed
qed


lemma f32_round_err:
  assumes "\<bar>x\<bar> < 2 powi k" "- 125 \<le> k"
  shows "\<bar>f32_round x - x\<bar> \<le> 2 powi (k - 25)"
proof (cases "x = 0")
  case True
  then show ?thesis by (simp add: f32_round_zero)
next
  case False
  define e where "e = max (rat_ilog2 \<bar>x\<bar>) (- 126)"
  define u where "u = (2::rat) powi (e - 23)"
  have u: "0 < u" unfolding u_def by simp
  have "rat_ilog2 \<bar>x\<bar> < k" using False assms(1) by (intro rat_ilog2_less) auto
  then have "e - 23 \<le> k - 24" unfolding e_def using assms(2) by simp
  then have uk: "u \<le> 2 powi (k - 24)" unfolding u_def by (intro power_int_increasing) auto
  have r: "f32_round x = of_int (round_half_even (x / u)) * u"
    unfolding f32_round_def f32_ulp_def e_def [symmetric] u_def [symmetric] using False by simp
  have "f32_round x - x = (of_int (round_half_even (x / u)) - x / u) * u"
    unfolding r using u by (simp add: field_simps)
  then have "\<bar>f32_round x - x\<bar> = \<bar>of_int (round_half_even (x / u)) - x / u\<bar> * u"
    using u by (simp add: abs_mult)
  also have "\<dots> \<le> 1 / 2 * u" using rhe_err [of "x / u"] u by (intro mult_right_mono) auto
  also have "\<dots> \<le> 1 / 2 * 2 powi (k - 24)" using uk by simp
  also have "\<dots> = 2 powi (k - 25)"
  proof -
    have eq: "k - 24 = 1 + (k - 25)" by simp
    show ?thesis by (subst eq, subst power_int_add) simp_all
  qed
  finally show ?thesis .
qed

lemma rat_ilog2_ge:
  assumes "2 powi k \<le> x"
  shows "k \<le> rat_ilog2 x"
proof (rule ccontr)
  assume "\<not> k \<le> rat_ilog2 x"
  then have "(2::rat) powi (rat_ilog2 x + 1) \<le> 2 powi k"
    by (intro power_int_increasing) auto
  moreover have "0 < x" using assms by (rule less_le_trans [rotated]) simp
  then have "x < 2 powi (rat_ilog2 x + 1)" by (rule rat_ilog2_bounds)
  ultimately show False using assms by linarith
qed

lemma f32_round_of_int:
  assumes "\<bar>n\<bar> < 2 ^ 24"
  shows "f32_round (of_int n) = of_int n"
proof (cases "n = 0")
  case True
  then show ?thesis by (simp add: f32_round_zero)
next
  case False
  define x :: rat where "x = of_int n"
  define e where "e = max (rat_ilog2 \<bar>x\<bar>) (- 126)"
  define j where "j = nat (23 - e)"
  define u where "u = (2::rat) powi (e - 23)"
  have x0: "x \<noteq> 0" unfolding x_def using False by simp
  have "1 \<le> \<bar>n\<bar>" using False by simp
  then have "(1::rat) \<le> of_int \<bar>n\<bar>" by (simp only: of_int_1_le_iff)
  then have "2 powi 0 \<le> \<bar>x\<bar>" unfolding x_def by simp
  then have lo: "0 \<le> rat_ilog2 \<bar>x\<bar>" by (rule rat_ilog2_ge)
  have "(of_int \<bar>n\<bar> :: rat) < of_int (2 ^ 24)" using assms by (simp only: of_int_less_iff)
  then have "\<bar>x\<bar> < 2 powi 24" unfolding x_def by simp
  then have hi: "rat_ilog2 \<bar>x\<bar> < 24" using x0 by (intro rat_ilog2_less) auto
  have e: "e \<le> 23" "0 \<le> e" unfolding e_def using lo hi by auto
  have "u = 2 powi (- (23 - e))" unfolding u_def by simp
  also have "\<dots> = inverse (2 powi (23 - e))" by (rule power_int_minus)
  also have "\<dots> = inverse (2 ^ j)" unfolding j_def using e by (simp add: power_int_def)
  finally have u: "u = inverse (2 ^ j)" .
  have "x / u = of_int (n * 2 ^ j)" unfolding u x_def by (simp add: field_simps)
  then have "round_half_even (x / u) = n * 2 ^ j" by (simp only: rhe_of_int)
  then have "of_int (round_half_even (x / u)) * u = x" unfolding u x_def by simp
  moreover have "f32_round x = of_int (round_half_even (x / u)) * u"
    unfolding f32_round_def f32_ulp_def e_def [symmetric] u_def [symmetric] using x0 by simp
  ultimately show ?thesis unfolding x_def by simp
qed

lemma f32_round_numeral [simp]:
  "f32_round 0 = 0" "f32_round 1 = 1" "f32_round 150 = 150" "f32_round 550 = 550"
  "f32_round 700 = 700" "f32_round 4095 = 4095"
  using f32_round_of_int [of 0] f32_round_of_int [of 1] f32_round_of_int [of 150]
    f32_round_of_int [of 550] f32_round_of_int [of 700] f32_round_of_int [of 4095]
  by simp_all

text \<open>The result has a significand of at most 24 bits and an exponent in the binary32
  range.\<close>

lemma f32_round_representable:
  "\<exists>m e. f32_round x = of_int m * 2 powi e \<and> \<bar>m\<bar> \<le> 2 ^ 24 \<and> - 149 \<le> e"
proof (cases "x = 0")
  case True
  then have "f32_round x = of_int 0 * 2 powi (- 149)" by simp
  then show ?thesis by (intro exI [of _ 0] exI [of _ "- 149"]) simp
next
  case False
  define e where "e = max (rat_ilog2 \<bar>x\<bar>) (- 126)"
  define u where "u = (2::rat) powi (e - 23)"
  define m where "m = round_half_even (x / u)"
  have u: "0 < u" unfolding u_def by simp
  have "\<bar>x\<bar> < 2 powi (rat_ilog2 \<bar>x\<bar> + 1)" using False by (intro rat_ilog2_bounds) simp
  also have "\<dots> \<le> 2 powi (e + 1)" unfolding e_def by (intro power_int_increasing) auto
  also have "\<dots> = 2 ^ 24 * u" unfolding u_def by (rule pow2_split)
  finally have "\<bar>x\<bar> \<le> 2 ^ 24 * u" by simp
  then have "- (2 ^ 24) * u \<le> x" "x \<le> 2 ^ 24 * u" by (simp_all add: abs_le_iff)
  then have "of_int (- (2 ^ 24)) \<le> x / u" "x / u \<le> of_int (2 ^ 24)"
    using u by (simp_all add: field_simps)
  then have "- (2 ^ 24) \<le> m" "m \<le> 2 ^ 24"
    unfolding m_def using rhe_mono [of "of_int (- (2 ^ 24))" "x / u"] rhe_mono [of "x / u" "of_int (2 ^ 24)"]
    by (simp_all only: rhe_of_int)
  then have m: "\<bar>m\<bar> \<le> 2 ^ 24" by simp
  have r: "f32_round x = of_int m * 2 powi (e - 23)"
    unfolding f32_round_def f32_ulp_def e_def [symmetric] u_def [symmetric] m_def using False
    by (simp add: u_def)
  have "- 149 \<le> e - 23" unfolding e_def by simp
  then show ?thesis using r m by blast
qed

text \<open>Known binary32 roundings: 0.1 and 1/3, ties around \<open>2 ^ 24\<close>, subnormal ties, and
  the overflow threshold \<open>2 ^ 128 - 2 ^ 103\<close>.\<close>

lemma f32_round_examples:
  "f32_round (1 / 10) = 13421773 / 2 ^ 27"
  "f32_round (1 / 3) = 11184811 / 2 ^ 25"
  "f32_round 16777217 = 16777216"
  "f32_round 16777219 = 16777220"
  "f32_round (1 / 2 ^ 150) = 0"
  "f32_round (3 / 2 ^ 150) = 2 / 2 ^ 149"
  "f32_fin (2 ^ 128 - 2 ^ 103) = None"
  "f32_fin (2 ^ 128 - 2 ^ 103 - 1) = Some FLT_MAX"
  by code_simp+

section \<open>The operations of the mapper never overflow\<close>

lemma f32_round_2p31: "f32_round 2147483648 = 2147483648"
  by code_simp

lemma f32_round_abs_le:
  assumes "\<bar>x\<bar> \<le> 2147483648"
  shows "\<bar>f32_round x\<bar> \<le> 2147483648"
proof -
  have "f32_round x \<le> f32_round 2147483648" using assms by (intro f32_round_mono) simp
  moreover have "f32_round (- x) \<le> f32_round 2147483648" using assms by (intro f32_round_mono) simp
  ultimately show ?thesis unfolding f32_round_2p31 f32_round_neg by simp
qed

lemma f32_fin_Some:
  assumes "\<bar>x\<bar> \<le> 2147483648"
  shows "f32_fin x = Some (f32_round x)"
  using f32_round_abs_le [OF assms] unfolding f32_fin_def FLT_MAX_def by simp

lemma sint32_abs: "\<bar>rat_of_int (sint (adc :: 32 word))\<bar> \<le> 2147483648"
proof -
  have "- (2 ^ 31) \<le> sint adc" "sint adc < 2 ^ 31"
    using sint_ge [of adc] sint_lt [of adc] by simp_all
  then have "\<bar>sint adc\<bar> \<le> 2147483648" by simp
  then have "rat_of_int \<bar>sint adc\<bar> \<le> rat_of_int 2147483648" by (simp only: of_int_le_iff)
  then show ?thesis by simp
qed

lemma mq7_t_range: "0 \<le> mq7_t a" "mq7_t a \<le> 1"
  unfolding mq7_t_def Let_def by auto

lemma mq7_unfold:
  "mq7_map_adc_to_gas adc = Some (f32_round (150 + f32_round (mq7_t (sint adc) * 550)))"
proof -
  define a :: rat where "a = of_int (sint adc)"
  define v where "v = f32_round a"
  define n where "n = f32_round (v - 0)"
  define t where "t = f32_round (n / 4095)"
  have a: "\<bar>a\<bar> \<le> 2147483648" unfolding a_def by (rule sint32_abs)
  have v: "\<bar>v\<bar> \<le> 2147483648" unfolding v_def using a by (rule f32_round_abs_le)
  have n: "\<bar>n\<bar> \<le> 2147483648" unfolding n_def using v by (intro f32_round_abs_le) simp
  have "\<bar>n / 4095\<bar> \<le> \<bar>n\<bar>" by simp
  then have q: "\<bar>n / 4095\<bar> \<le> 2147483648" using n by linarith
  have s1: "f32_of_int (sint adc) = Some v"
    unfolding f32_of_int_def v_def a_def [symmetric] using a by (rule f32_fin_Some)
  have s2: "f32_sub v MQ7_ADC_MIN_F = Some n"
    unfolding f32_sub_def n_def MQ7_ADC_MIN_F_def using v by (intro f32_fin_Some) simp
  have s3: "f32_sub MQ7_ADC_MAX_F MQ7_ADC_MIN_F = Some 4095"
    unfolding f32_sub_def MQ7_ADC_MAX_F_def MQ7_ADC_MIN_F_def by (simp add: f32_fin_Some)
  have s4: "f32_div n 4095 = Some t"
    unfolding f32_div_def t_def using q by (simp add: f32_fin_Some)
  have s5: "f32_sub GAS_UNIT_MAX GAS_UNIT_MIN = Some 550"
    unfolding f32_sub_def GAS_UNIT_MAX_def GAS_UNIT_MIN_def by (simp add: f32_fin_Some)
  define c where "c = mq7_t (sint adc)"
  have c: "c = (if 1 < (if t < 0 then 0 else t) then 1 else (if t < 0 then 0 else t))"
    unfolding c_def mq7_t_def t_def n_def v_def a_def Let_def ..
  have cr: "0 \<le> c" "c \<le> 1" unfolding c_def by (rule mq7_t_range)+
  have "\<bar>c * 550\<bar> \<le> 2147483648" using cr by (simp add: abs_mult)
  then have s6: "f32_mul c 550 = Some (f32_round (c * 550))"
    unfolding f32_mul_def by (rule f32_fin_Some)
  have "f32_round 0 \<le> f32_round (c * 550)" using cr by (intro f32_round_mono) simp
  moreover have "f32_round (c * 550) \<le> f32_round 550" using cr by (intro f32_round_mono) simp
  ultimately have p: "0 \<le> f32_round (c * 550)" "f32_round (c * 550) \<le> 550" by simp_all
  then have "\<bar>150 + f32_round (c * 550)\<bar> \<le> 2147483648" by simp
  then have s7: "f32_add GAS_UNIT_MIN (f32_round (c * 550)) = Some (f32_round (150 + f32_round (c * 550)))"
    unfolding f32_add_def GAS_UNIT_MIN_def by (rule f32_fin_Some)
  show ?thesis
    unfolding mq7_map_adc_to_gas_def s1 s3 c_def [symmetric]
    by (simp add: s2 s4 s5 c [symmetric] s6 s7)
qed

section \<open>Monotonicity and the clamped ratio\<close>

lemma mq7_raw_mono:
  assumes "a \<le> b"
  shows "f32_round (f32_round (f32_round (rat_of_int a) - 0) / 4095)
       \<le> f32_round (f32_round (f32_round (rat_of_int b) - 0) / 4095)"
proof -
  have "rat_of_int a \<le> rat_of_int b" using assms by simp
  then have "f32_round (rat_of_int a) - 0 \<le> f32_round (rat_of_int b) - 0"
    using f32_round_mono by simp
  then have "f32_round (f32_round (rat_of_int a) - 0) / 4095 \<le> f32_round (f32_round (rat_of_int b) - 0) / 4095"
    by (intro divide_right_mono f32_round_mono) simp_all
  then show ?thesis by (rule f32_round_mono)
qed

lemma mq7_t_mono:
  assumes "a \<le> b"
  shows "mq7_t a \<le> mq7_t b"
  using mq7_raw_mono [OF assms] unfolding mq7_t_def Let_def by auto

lemma mq7_t_neg:
  assumes "a < 0"
  shows "mq7_t a = 0"
proof -
  have "f32_round (f32_round (f32_round (rat_of_int a) - 0) / 4095)
       \<le> f32_round (f32_round (f32_round (rat_of_int 0) - 0) / 4095)"
    using assms by (intro mq7_raw_mono) simp
  then show ?thesis unfolding mq7_t_def Let_def by auto
qed

lemma mq7_t_above:
  assumes "4095 < a"
  shows "mq7_t a = 1"
proof -
  have r: "f32_round 4096 = 4096" using f32_round_of_int [of 4096] by simp
  have "f32_round (f32_round (f32_round (rat_of_int 4096) - 0) / 4095)
       \<le> f32_round (f32_round (f32_round (rat_of_int a) - 0) / 4095)"
    using assms by (intro mq7_raw_mono) simp
  moreover have "f32_round 1 \<le> f32_round (f32_round (f32_round (rat_of_int 4096) - 0) / 4095)"
    by (intro f32_round_mono) (simp add: r)
  ultimately have "1 \<le> f32_round (f32_round (f32_round (rat_of_int a) - 0) / 4095)" by simp
  then show ?thesis unfolding mq7_t_def Let_def by auto
qed

lemma mq7_t_in_range:
  assumes "0 \<le> a" "a \<le> 4095"
  shows "mq7_t a = f32_round (of_int a / 4095)"
    and "0 \<le> f32_round (rat_of_int a / 4095)" and "f32_round (rat_of_int a / 4095) \<le> 1"
proof -
  have r: "f32_round (rat_of_int a) = of_int a" using assms by (intro f32_round_of_int) simp
  have "f32_round 0 \<le> f32_round (rat_of_int a / 4095)" using assms by (intro f32_round_mono) simp
  then show lo: "0 \<le> f32_round (rat_of_int a / 4095)" by simp
  have "rat_of_int a \<le> rat_of_int 4095" using assms by (simp only: of_int_le_iff)
  then have "f32_round (rat_of_int a / 4095) \<le> f32_round 1" by (intro f32_round_mono) simp
  then show hi: "f32_round (rat_of_int a / 4095) \<le> 1" by simp
  show "mq7_t a = f32_round (of_int a / 4095)"
    unfolding mq7_t_def Let_def using lo hi by (simp add: r)
qed

lemma mq7_gas_mono:
  assumes "s \<le> t"
  shows "f32_round (150 + f32_round (s * 550)) \<le> f32_round (150 + f32_round (t * 550))"
proof -
  have "f32_round (s * 550) \<le> f32_round (t * 550)" using assms by (intro f32_round_mono) simp
  then show ?thesis by (intro f32_round_mono) simp
qed

lemma mq7_gas_range:
  assumes "0 \<le> t" "t \<le> 1"
  shows "150 \<le> f32_round (150 + f32_round (t * 550))" "f32_round (150 + f32_round (t * 550)) \<le> 700"
  using mq7_gas_mono [OF assms(1)] mq7_gas_mono [OF assms(2)] by simp_all

section \<open>Distance to the exact contract\<close>

lemma clamp_unit: "clamp t 0 1 = (if 1 < (if t < 0 then 0 else t) then 1 else (if t < 0 then 0 else t))"
  unfolding clamp_def by auto

lemma exact_below: "a < 0 \<Longrightarrow> exact_map_adc_to_gas a = 150"
  unfolding exact_map_adc_to_gas_def clamp_def ADC_MIN_def ADC_MAX_def UNIT_MIN_def UNIT_MAX_def
  by (simp add: max_def min_def divide_less_0_iff)

lemma exact_above: "4095 < a \<Longrightarrow> exact_map_adc_to_gas a = 700"
  unfolding exact_map_adc_to_gas_def clamp_def ADC_MIN_def ADC_MAX_def UNIT_MIN_def UNIT_MAX_def
  by (simp add: max_def min_def)

lemma exact_in_range:
  "0 \<le> a \<Longrightarrow> a \<le> 4095 \<Longrightarrow> exact_map_adc_to_gas a = 150 + of_int a / 4095 * 550"
  unfolding exact_map_adc_to_gas_def clamp_def ADC_MIN_def ADC_MAX_def UNIT_MIN_def UNIT_MAX_def
  by (simp add: max_def min_def)

lemma mq7_near_exact:
  "\<bar>f32_round (150 + f32_round (mq7_t a * 550)) - exact_map_adc_to_gas a\<bar> \<le> 1 / 2 ^ 13"
proof -
  consider "a < 0" | "4095 < a" | "0 \<le> a" "a \<le> 4095" by linarith
  then show ?thesis
  proof cases
    case 1
    then show ?thesis by (simp add: mq7_t_neg exact_below)
  next
    case 2
    then show ?thesis by (simp add: mq7_t_above exact_above)
  next
    case 3
    define q :: rat where "q = of_int a / 4095"
    define t where "t = f32_round q"
    define p where "p = f32_round (t * 550)"
    define g where "g = f32_round (150 + p)"
    have q: "0 \<le> q" "q \<le> 1" unfolding q_def using 3 by simp_all
    have t: "0 \<le> t" "t \<le> 1" unfolding t_def q_def using mq7_t_in_range(2,3) [OF 3] by simp_all
    have "f32_round 0 \<le> p" unfolding p_def using t by (intro f32_round_mono) simp
    moreover have "p \<le> f32_round 550" unfolding p_def using t by (intro f32_round_mono) simp
    ultimately have p: "0 \<le> p" "p \<le> 550" by simp_all
    have "\<bar>q\<bar> < 2 powi 1" using q by simp
    then have "\<bar>f32_round q - q\<bar> \<le> 2 powi (1 - 25)" by (rule f32_round_err) simp
    then have e1: "\<bar>t - q\<bar> \<le> 1 / 16777216" unfolding t_def by (simp add: power_int_minus)
    have "\<bar>t * 550\<bar> < 2 powi 10" using t by (simp add: abs_mult)
    then have "\<bar>f32_round (t * 550) - t * 550\<bar> \<le> 2 powi (10 - 25)" by (rule f32_round_err) simp
    then have e2: "\<bar>p - t * 550\<bar> \<le> 1 / 32768" unfolding p_def by (simp add: power_int_minus)
    have "\<bar>150 + p\<bar> < 2 powi 10" using p by simp
    then have "\<bar>f32_round (150 + p) - (150 + p)\<bar> \<le> 2 powi (10 - 25)" by (rule f32_round_err) simp
    then have e3: "\<bar>g - (150 + p)\<bar> \<le> 1 / 32768" unfolding g_def by (simp add: power_int_minus)
    have "\<bar>g - (150 + q * 550)\<bar> \<le> 1 / 8192" using e1 e2 e3 by (simp only: abs_le_iff) linarith
    moreover have "mq7_t a = t" unfolding t_def q_def using 3 by (rule mq7_t_in_range(1))
    moreover have "exact_map_adc_to_gas a = 150 + q * 550" unfolding q_def using 3 by (rule exact_in_range)
    ultimately show ?thesis unfolding g_def p_def by simp
  qed
qed

section \<open>The call reads only its argument and the const objects\<close>

lemma mq7_call_pure:
  assumes "mq7_initialised m"
  shows "mq7_call m l adc = map_option (\<lambda>g. (g, m)) (mq7_map_adc_to_gas adc)"
  using assms
  unfolding mq7_call_def mq7_body_def mq7_initialised_def mq7_map_adc_to_gas_def Let_def
  by (auto split: Option.bind_splits)

section \<open>The properties of the specification\<close>

text \<open>
  C1. For every \<^verbatim>\<open>int\<close> argument, however far outside \<open>0..4095\<close>,
  \<^verbatim>\<open>mq7_map_adc_to_gas\<close> returns a value between \<open>GAS_UNIT_MIN = 150\<close> and
  \<open>GAS_UNIT_MAX = 700\<close> inclusive.
\<close>

theorem mq7_output_in_range: "\<exists>g. mq7_map_adc_to_gas adc = Some g \<and> GAS_UNIT_MIN \<le> g \<and> g \<le> GAS_UNIT_MAX"
  unfolding mq7_unfold GAS_UNIT_MIN_def GAS_UNIT_MAX_def
  using mq7_gas_range [OF mq7_t_range, of "sint adc"] by simp

text \<open>
  C2. For every argument the function computes the contract of the specification:
  \<open>t = (adc - ADC_MIN) / (ADC_MAX - ADC_MIN)\<close>, \<open>t = clamp(t, 0.0, 1.0)\<close>,
  \<open>result = UNIT_MIN + t * (UNIT_MAX - UNIT_MIN)\<close> with the constants 0, 4095, 150 and
  700. The two agree exactly when the contract is evaluated in the arithmetic of the code,
  and the result is within \<open>1 / 2 ^ 13\<close> of the contract evaluated without rounding.
\<close>

theorem mq7_refines_contract:
  "mq7_map_adc_to_gas adc = spec_map_adc_to_gas (sint adc) \<and>
   (\<exists>g. mq7_map_adc_to_gas adc = Some g \<and> \<bar>g - exact_map_adc_to_gas (sint adc)\<bar> \<le> 1 / 2 ^ 13)"
proof
  show "mq7_map_adc_to_gas adc = spec_map_adc_to_gas (sint adc)"
    unfolding mq7_map_adc_to_gas_def spec_map_adc_to_gas_def clamp_unit Let_def
      MQ7_ADC_MIN_F_def MQ7_ADC_MAX_F_def GAS_UNIT_MIN_def GAS_UNIT_MAX_def
      ADC_MIN_def ADC_MAX_def UNIT_MIN_def UNIT_MAX_def
    by simp
  show "\<exists>g. mq7_map_adc_to_gas adc = Some g \<and> \<bar>g - exact_map_adc_to_gas (sint adc)\<bar> \<le> 1 / 2 ^ 13"
    unfolding mq7_unfold using mq7_near_exact by simp
qed

text \<open>
  C3. The function is monotonically non-decreasing over all \<^verbatim>\<open>int\<close> values: a
  smaller argument never gives a larger result.
\<close>

theorem mq7_monotone:
  assumes "sint adc1 < sint adc2"
  shows "\<exists>g1 g2. mq7_map_adc_to_gas adc1 = Some g1 \<and> mq7_map_adc_to_gas adc2 = Some g2 \<and> g1 \<le> g2"
proof -
  have "mq7_t (sint adc1) \<le> mq7_t (sint adc2)" using assms by (intro mq7_t_mono) simp
  then show ?thesis unfolding mq7_unfold using mq7_gas_mono by simp
qed

theorem mq7_monotone_witness: "sint (1 :: 32 word) < sint (2 :: 32 word) \<and>
   (\<exists>g1 g2. mq7_map_adc_to_gas 1 = Some g1 \<and> mq7_map_adc_to_gas 2 = Some g2 \<and> g1 \<le> g2)"
  using mq7_monotone [of 1 2] by simp

text \<open>
  C4. Arguments outside the domain saturate and do not fail: every negative argument
  gives exactly \<open>GAS_UNIT_MIN\<close>, every argument above 4095 gives exactly
  \<open>GAS_UNIT_MAX\<close>; in particular -100 gives 150 and 10000 gives 700.
\<close>

theorem mq7_saturates:
  "(sint lo < 0 \<longrightarrow> mq7_map_adc_to_gas lo = Some GAS_UNIT_MIN) \<and>
   (4095 < sint hi \<longrightarrow> mq7_map_adc_to_gas hi = Some GAS_UNIT_MAX) \<and>
   mq7_map_adc_to_gas (- 100) = Some 150 \<and>
   mq7_map_adc_to_gas 10000 = Some 700"
proof -
  have lo: "mq7_map_adc_to_gas x = Some 150" if "sint x < 0" for x
    unfolding mq7_unfold mq7_t_neg [OF that] by simp
  have hi: "mq7_map_adc_to_gas x = Some 700" if "4095 < sint x" for x
    unfolding mq7_unfold mq7_t_above [OF that] by simp
  have "mq7_map_adc_to_gas (- 100) = Some 150" by (rule lo) simp
  moreover have "mq7_map_adc_to_gas 10000 = Some 700" by (rule hi) simp
  ultimately show ?thesis using lo hi unfolding GAS_UNIT_MIN_def GAS_UNIT_MAX_def by simp
qed

theorem mq7_saturates_witness:
  "sint (- 100 :: 32 word) < 0 \<and> 4095 < sint (10000 :: 32 word) \<and>
   mq7_map_adc_to_gas (- 100) = Some GAS_UNIT_MIN \<and> mq7_map_adc_to_gas 10000 = Some GAS_UNIT_MAX"
  using mq7_saturates [of "- 100" 10000] by simp

text \<open>
  C5. The ends of the domain map exactly to the ends of the range: 0 gives 150 and 4095
  gives 700.
\<close>

theorem mq7_boundary: "mq7_map_adc_to_gas 0 = Some 150 \<and> mq7_map_adc_to_gas 4095 = Some 700"
proof -
  have "mq7_t (sint (0 :: 32 word)) = 0" using mq7_t_in_range(1) [of 0] by simp
  moreover have "mq7_t (sint (4095 :: 32 word)) = 1" using mq7_t_in_range(1) [of 4095] by simp
  ultimately show ?thesis unfolding mq7_unfold by simp
qed

text \<open>
  C6, as stated: 2047 and 2048 map to 425.0 up to floating-point tolerance. The result
  at 2047 is \<open>13924199 / 32768\<close> (about 424.93283), more than 2000 units in the last
  place of binary32 away from 425.
\<close>

theorem mq7_midpoint_not_within_rounding:
  "mq7_map_adc_to_gas 2047 = Some (13924199 / 32768) \<and>
   \<not> \<bar>13924199 / 32768 - 425\<bar> \<le> 2000 * f32_ulp 425"
  by code_simp

text \<open>
  C6, amended: 2047 and 2048 map to \<open>425 - 2201 / 32768\<close> and
  \<open>425 + 2201 / 32768\<close>, each within 0.0672 of 425 (half of one input step,
  \<open>275 / 4095\<close>, up to rounding), one below and one above.
\<close>

theorem mq7_midpoint:
  "\<exists>g h. mq7_map_adc_to_gas 2047 = Some g \<and> mq7_map_adc_to_gas 2048 = Some h \<and>
     g = 425 - 2201 / 32768 \<and> h = 425 + 2201 / 32768 \<and>
     \<bar>g - 425\<bar> < 672 / 10000 \<and> \<bar>h - 425\<bar> < 672 / 10000"
proof -
  have "mq7_map_adc_to_gas 2047 = Some (425 - 2201 / 32768)" by code_simp
  moreover have "mq7_map_adc_to_gas 2048 = Some (425 + 2201 / 32768)" by code_simp
  ultimately show ?thesis
    by (intro exI [of _ "425 - 2201 / 32768"] exI [of _ "425 + 2201 / 32768"]) simp
qed

text \<open>
  C7. The function is total: \<open>MQ7_ADC_MIN_F < MQ7_ADC_MAX_F\<close>, so the divisor
  \<open>MQ7_ADC_MAX_F - MQ7_ADC_MIN_F\<close> is a nonzero number, and for every argument no
  operation overflows or divides by zero, so a finite value is returned.
\<close>

theorem mq7_total:
  "MQ7_ADC_MIN_F < MQ7_ADC_MAX_F \<and>
   (\<exists>d. f32_sub MQ7_ADC_MAX_F MQ7_ADC_MIN_F = Some d \<and> 0 < d) \<and>
   (\<exists>g. mq7_map_adc_to_gas adc = Some g)"
proof -
  have "f32_sub MQ7_ADC_MAX_F MQ7_ADC_MIN_F = Some 4095"
    unfolding f32_sub_def MQ7_ADC_MAX_F_def MQ7_ADC_MIN_F_def by (simp add: f32_fin_Some)
  then show ?thesis unfolding mq7_unfold by (simp add: MQ7_ADC_MAX_F_def MQ7_ADC_MIN_F_def)
qed

text \<open>
  C8. The function is deterministic: the result depends only on the argument and the
  immutable constants. Two evaluations at the same argument, from any two memories in
  which the const objects hold their initialisers, whatever the other objects and the
  locals hold before the call, both return, return the same output (the value of
  \<open>mq7_map_adc_to_gas\<close>), and leave the memory as they found it, so that a repeated
  call meets the same state.
\<close>

theorem mq7_deterministic:
  assumes "mq7_initialised m1" "mq7_initialised m2"
  shows "\<exists>g. mq7_call m1 l1 adc = Some (g, m1) \<and> mq7_call m2 l2 adc = Some (g, m2) \<and>
             mq7_map_adc_to_gas adc = Some g"
  unfolding mq7_call_pure [OF assms(1)] mq7_call_pure [OF assms(2)] mq7_unfold by simp

theorem mq7_deterministic_witness:
  "mq7_initialised \<lparr>obj_MQ7_ADC_MIN_F = 0, obj_MQ7_ADC_MAX_F = 4095, obj_GAS_UNIT_MIN = 150,
      obj_GAS_UNIT_MAX = 700, other_objects = (7 :: nat)\<rparr> \<and>
   mq7_initialised \<lparr>obj_MQ7_ADC_MIN_F = 0, obj_MQ7_ADC_MAX_F = 4095, obj_GAS_UNIT_MIN = 150,
      obj_GAS_UNIT_MAX = 700, other_objects = (99 :: nat)\<rparr> \<and>
   (\<exists>g. mq7_call \<lparr>obj_MQ7_ADC_MIN_F = 0, obj_MQ7_ADC_MAX_F = 4095, obj_GAS_UNIT_MIN = 150,
            obj_GAS_UNIT_MAX = 700, other_objects = (7 :: nat)\<rparr>
            \<lparr>loc_v = 1, loc_t = 2, loc_gas_val = 3\<rparr> 1234
          = Some (g, \<lparr>obj_MQ7_ADC_MIN_F = 0, obj_MQ7_ADC_MAX_F = 4095, obj_GAS_UNIT_MIN = 150,
            obj_GAS_UNIT_MAX = 700, other_objects = 7\<rparr>) \<and>
        mq7_call \<lparr>obj_MQ7_ADC_MIN_F = 0, obj_MQ7_ADC_MAX_F = 4095, obj_GAS_UNIT_MIN = 150,
            obj_GAS_UNIT_MAX = 700, other_objects = (99 :: nat)\<rparr>
            \<lparr>loc_v = - 5, loc_t = 40, loc_gas_val = 0\<rparr> 1234
          = Some (g, \<lparr>obj_MQ7_ADC_MIN_F = 0, obj_MQ7_ADC_MAX_F = 4095, obj_GAS_UNIT_MIN = 150,
            obj_GAS_UNIT_MAX = 700, other_objects = 99\<rparr>))"
  using mq7_deterministic [of
      "\<lparr>obj_MQ7_ADC_MIN_F = 0, obj_MQ7_ADC_MAX_F = 4095, obj_GAS_UNIT_MIN = 150,
        obj_GAS_UNIT_MAX = 700, other_objects = (7 :: nat)\<rparr>"
      "\<lparr>obj_MQ7_ADC_MIN_F = 0, obj_MQ7_ADC_MAX_F = 4095, obj_GAS_UNIT_MIN = 150,
        obj_GAS_UNIT_MAX = 700, other_objects = (99 :: nat)\<rparr>"
      "\<lparr>loc_v = 1, loc_t = 2, loc_gas_val = 3\<rparr>" 1234
      "\<lparr>loc_v = - 5, loc_t = 40, loc_gas_val = 0\<rparr>"]
  by (auto simp add: mq7_initialised_def MQ7_ADC_MIN_F_def MQ7_ADC_MAX_F_def
      GAS_UNIT_MIN_def GAS_UNIT_MAX_def)

text \<open>
  C9. For an argument in \<open>0..4095\<close> the value of \<^verbatim>\<open>t\<close> before the two clamps lies
  in \<open>[0, 1]\<close>, so neither clamp changes it, and the result is that of the affine formula
  \<open>GAS_UNIT_MIN + (adc / 4095) * (GAS_UNIT_MAX - GAS_UNIT_MIN)\<close> without clamps.
\<close>

theorem mq7_in_range_unclamped:
  assumes "0 \<le> sint adc" "sint adc \<le> 4095"
  shows "(\<exists>v n d t. f32_of_int (sint adc) = Some v \<and> f32_sub v MQ7_ADC_MIN_F = Some n \<and>
            f32_sub MQ7_ADC_MAX_F MQ7_ADC_MIN_F = Some d \<and> f32_div n d = Some t \<and>
            0 \<le> t \<and> t \<le> 1) \<and>
         mq7_map_adc_to_gas adc = unclamped_map_adc_to_gas (sint adc)"
proof -
  define a :: rat where "a = of_int (sint adc)"
  have a: "\<bar>a\<bar> \<le> 2147483648" unfolding a_def by (rule sint32_abs)
  have r: "f32_round a = a" unfolding a_def using assms by (intro f32_round_of_int) simp
  have t: "0 \<le> f32_round (a / 4095)" "f32_round (a / 4095) \<le> 1"
    unfolding a_def using mq7_t_in_range(2,3) [OF assms] by simp_all
  have "\<bar>a / 4095\<bar> \<le> \<bar>a\<bar>" by simp
  then have q: "\<bar>a / 4095\<bar> \<le> 2147483648" using a by linarith
  have s1: "f32_of_int (sint adc) = Some a"
    unfolding f32_of_int_def a_def [symmetric] using a by (simp add: f32_fin_Some r)
  have s2: "f32_sub a MQ7_ADC_MIN_F = Some a"
    unfolding f32_sub_def MQ7_ADC_MIN_F_def using a by (simp add: f32_fin_Some r)
  have s3: "f32_sub MQ7_ADC_MAX_F MQ7_ADC_MIN_F = Some 4095"
    unfolding f32_sub_def MQ7_ADC_MAX_F_def MQ7_ADC_MIN_F_def by (simp add: f32_fin_Some)
  have s4: "f32_div a 4095 = Some (f32_round (a / 4095))"
    unfolding f32_div_def using q by (simp add: f32_fin_Some)
  have "mq7_map_adc_to_gas adc = unclamped_map_adc_to_gas (sint adc)"
    unfolding mq7_map_adc_to_gas_def unclamped_map_adc_to_gas_def s1 s3
    using t by (simp add: s2 s4)
  then show ?thesis using s1 s2 s3 s4 t by simp
qed

theorem mq7_in_range_unclamped_witness:
  "0 \<le> sint (1234 :: 32 word) \<and> sint (1234 :: 32 word) \<le> 4095 \<and>
   mq7_map_adc_to_gas 1234 = unclamped_map_adc_to_gas (sint (1234 :: 32 word))"
  using mq7_in_range_unclamped [of 1234] by simp

text \<open>
  C10. On \<open>0..4095\<close> the function is strictly increasing: the step of the
  exact mapping, \<open>550 / 4095\<close>, is far larger than twice the rounding error.
\<close>

theorem mq7_strictly_increasing_in_range:
  assumes "0 \<le> sint adc1" "sint adc1 < sint adc2" "sint adc2 \<le> 4095"
  shows "\<exists>g1 g2. mq7_map_adc_to_gas adc1 = Some g1 \<and> mq7_map_adc_to_gas adc2 = Some g2 \<and> g1 < g2"
proof -
  define a where "a = sint adc1"
  define b where "b = sint adc2"
  define ga where "ga = f32_round (150 + f32_round (mq7_t a * 550))"
  define gb where "gb = f32_round (150 + f32_round (mq7_t b * 550))"
  have ab: "0 \<le> a" "a + 1 \<le> b" "b \<le> 4095" unfolding a_def b_def using assms by simp_all
  have ea: "exact_map_adc_to_gas a = 150 + of_int a / 4095 * 550" using ab by (intro exact_in_range) simp_all
  have eb: "exact_map_adc_to_gas b = 150 + of_int b / 4095 * 550" using ab by (intro exact_in_range) simp_all
  have "rat_of_int (a + 1) \<le> rat_of_int b" using ab(2) by (simp only: of_int_le_iff)
  then have "rat_of_int a + 1 \<le> rat_of_int b" by simp
  then have gap: "exact_map_adc_to_gas a + 550 / 4095 \<le> exact_map_adc_to_gas b"
    unfolding ea eb by simp
  have "\<bar>ga - exact_map_adc_to_gas a\<bar> \<le> 1 / 8192"
    unfolding ga_def using mq7_near_exact [of a] by simp
  moreover have "\<bar>gb - exact_map_adc_to_gas b\<bar> \<le> 1 / 8192"
    unfolding gb_def using mq7_near_exact [of b] by simp
  ultimately have "ga < gb" using gap by (simp only: abs_le_iff) linarith
  then show ?thesis unfolding mq7_unfold a_def [symmetric] b_def [symmetric] ga_def gb_def by simp
qed

theorem mq7_strictly_increasing_in_range_witness:
  "0 \<le> sint (0 :: 32 word) \<and> sint (0 :: 32 word) < sint (1 :: 32 word) \<and> sint (1 :: 32 word) \<le> 4095 \<and>
   (\<exists>g1 g2. mq7_map_adc_to_gas 0 = Some g1 \<and> mq7_map_adc_to_gas 1 = Some g2 \<and> g1 < g2)"
  using mq7_strictly_increasing_in_range [of 0 1] by simp

end
